theory Spec2Isabelle
  imports Main "HOL-Library.Product_Lexorder"
begin

section \<open>The maze solver of \<^verbatim>\<open>maze_solver.py\<close>\<close>

text \<open>
  A shallow embedding of class \<^verbatim>\<open>MazeSolver\<close>. The maze is the list of rows read
  from the file; coordinates, costs and the tie-breaking counter are Python integers.
  Indexing a list out of range and looking up a missing dictionary key are error values.
\<close>

subsection \<open>Data\<close>

type_synonym pos = "int \<times> int"

type_synonym grid = "int list list"

text \<open>A frontier entry is the tuple \<^verbatim>\<open>(f_score, tie-breaker, position)\<close>.\<close>

type_synonym entry = "int \<times> int \<times> pos"

datatype error = IndexError | KeyError

text \<open>\<^verbatim>\<open>self.rows = len(self.maze)\<close>, \<^verbatim>\<open>self.cols = len(self.maze[0]) if self.rows > 0 else 0\<close>.\<close>

definition rows :: "grid \<Rightarrow> int" where
  "rows m = int (length m)"

definition cols :: "grid \<Rightarrow> int" where
  "cols m = (if rows m > 0 then int (length (m ! 0)) else 0)"

text \<open>Subscripting a list as Python does it: an index from \<open>-len\<close> up to \<open>-1\<close> is
  taken from the end of the list, and an index outside \<open>-len .. len - 1\<close> raises
  \<^verbatim>\<open>IndexError\<close>.\<close>

definition getitem :: "'a list \<Rightarrow> int \<Rightarrow> error + 'a" where
  "getitem xs i =
     (if 0 \<le> i \<and> i < int (length xs) then Inr (xs ! nat i)
      else if i < 0 \<and> - int (length xs) \<le> i then Inr (xs ! nat (int (length xs) + i))
      else Inl IndexError)"

text \<open>\<^verbatim>\<open>self.maze[r][c]\<close>.\<close>

definition cell :: "grid \<Rightarrow> int \<Rightarrow> int \<Rightarrow> error + int" where
  "cell m r c = (case getitem m r of Inl e \<Rightarrow> Inl e | Inr row \<Rightarrow> getitem row c)"

subsection \<open>Heuristic and neighbours\<close>

definition heuristic :: "pos \<Rightarrow> pos \<Rightarrow> int" where
  "heuristic p goal = \<bar>fst p - fst goal\<bar> + \<bar>snd p - snd goal\<bar>"

definition directions :: "(int \<times> int) list" where
  "directions = [(-1, 0), (1, 0), (0, -1), (0, 1)]"

text \<open>The \<^verbatim>\<open>for dr, dc in directions\<close> loop of \<^verbatim>\<open>_get_neighbors\<close>, with the list
  \<^verbatim>\<open>neighbors\<close> built so far as accumulator.\<close>

fun neighbors_loop :: "grid \<Rightarrow> pos \<Rightarrow> (int \<times> int) list \<Rightarrow> pos list \<Rightarrow> error + pos list" where
  "neighbors_loop m p [] neighbors = Inr neighbors"
| "neighbors_loop m p (d # ds) neighbors =
     (let new_row = fst p + fst d; new_col = snd p + snd d in
      if 0 \<le> new_row \<and> new_row < rows m \<and> 0 \<le> new_col \<and> new_col < cols m then
        (case cell m new_row new_col of
           Inl e \<Rightarrow> Inl e
         | Inr v \<Rightarrow>
             if v = 0 then neighbors_loop m p ds (neighbors @ [(new_row, new_col)])
             else neighbors_loop m p ds neighbors)
      else neighbors_loop m p ds neighbors)"

definition get_neighbors :: "grid \<Rightarrow> pos \<Rightarrow> error + pos list" where
  "get_neighbors m p = neighbors_loop m p directions []"

subsection \<open>The search of \<^verbatim>\<open>find_path\<close>\<close>

text \<open>The local variables of \<^verbatim>\<open>find_path\<close> that the loop reads and writes.\<close>

record search_state =
  open_set :: "entry list"
  counter :: int
  g_score :: "pos \<rightharpoonup> int"
  open_set_hash :: "pos set"
  best_goal_cost :: "int option"

text \<open>
  The heap of \<^verbatim>\<open>heapq\<close> is kept as the list of its entries. \<^verbatim>\<open>heappop\<close> removes and
  returns the smallest entry; Python compares the tuples lexicographically, which is
  the order of the product type here.
\<close>

definition heappush :: "entry list \<Rightarrow> entry \<Rightarrow> entry list" where
  "heappush h e = h @ [e]"

definition heappop :: "entry list \<Rightarrow> entry \<times> entry list" where
  "heappop h = (Min (set h), remove1 (Min (set h)) h)"

text \<open>The body of \<^verbatim>\<open>for neighbor in self._get_neighbors(current)\<close>.\<close>

definition relax :: "pos \<Rightarrow> int \<Rightarrow> pos \<Rightarrow> search_state \<Rightarrow> search_state" where
  "relax goal current_g neighbor s =
     (let tentative_g = current_g + 1 in
      if (case g_score s neighbor of None \<Rightarrow> True | Some g \<Rightarrow> tentative_g < g) then
        (let s1 = s\<lparr>g_score := (g_score s)(neighbor \<mapsto> tentative_g)\<rparr>;
             f = tentative_g + heuristic neighbor goal
         in if neighbor \<notin> open_set_hash s1 then
              s1\<lparr>open_set := heappush (open_set s1) (f, counter s1, neighbor),
                 counter := counter s1 + 1,
                 open_set_hash := insert neighbor (open_set_hash s1)\<rparr>
            else s1)
      else s)"

text \<open>One pass through the body of \<^verbatim>\<open>while open_set\<close>: it raises, returns from
  \<^verbatim>\<open>find_path\<close>, or falls through to the next test of the loop condition.\<close>

datatype outcome = Raise error | Return bool search_state | Continue search_state

definition record_goal :: "pos \<Rightarrow> pos \<Rightarrow> int \<Rightarrow> search_state \<Rightarrow> search_state" where
  "record_goal goal current current_g s =
     (if current = goal then
        (case best_goal_cost s of
           None \<Rightarrow> s\<lparr>best_goal_cost := Some current_g\<rparr>
         | Some b \<Rightarrow> s\<lparr>best_goal_cost := Some (min b current_g)\<rparr>)
      else s)"

definition iteration :: "grid \<Rightarrow> pos \<Rightarrow> search_state \<Rightarrow> outcome" where
  "iteration m goal s =
     (case heappop (open_set s) of
        ((current_f, _, current), rest) \<Rightarrow>
          (let s1 = s\<lparr>open_set := rest, open_set_hash := open_set_hash s - {current}\<rparr> in
           case g_score s1 current of
             None \<Rightarrow> Raise KeyError
           | Some current_g \<Rightarrow>
               (let s2 = record_goal goal current current_g s1 in
                if (case best_goal_cost s2 of None \<Rightarrow> False | Some b \<Rightarrow> current_f \<ge> b)
                then Return True s2
                else (case get_neighbors m current of
                        Inl e \<Rightarrow> Raise e
                      | Inr ns \<Rightarrow> Continue (fold (relax goal current_g) ns s2)))))"

text \<open>The loop. It is not structurally recursive; a run that never leaves the loop
  has the value \<open>None\<close>. The state at the moment of the return is part of the result.\<close>

partial_function (option) search :: "grid \<Rightarrow> pos \<Rightarrow> search_state \<Rightarrow> (error + bool \<times> search_state) option" where
  "search m goal s =
     (if open_set s = [] then Some (Inr (False, s))
      else (case iteration m goal s of
              Raise e \<Rightarrow> Some (Inl e)
            | Return b s' \<Rightarrow> Some (Inr (b, s'))
            | Continue s' \<Rightarrow> search m goal s'))"

declare search.simps [code]

definition init :: "pos \<Rightarrow> search_state" where
  "init start = \<lparr>open_set = [(0, 0, start)], counter = 1, g_score = [start \<mapsto> 0],
     open_set_hash = {start}, best_goal_cost = None\<rparr>"

text \<open>\<^verbatim>\<open>find_path\<close>, together with the search state at the return (\<open>None\<close> when the
  call returns before the search state is created).\<close>

definition find_path_run :: "grid \<Rightarrow> pos \<Rightarrow> pos \<Rightarrow> (error + bool \<times> search_state option) option" where
  "find_path_run m start goal =
     (if \<not> (0 \<le> fst start \<and> fst start < rows m \<and> 0 \<le> snd start \<and> snd start < cols m) then
        Some (Inr (False, None))
      else if \<not> (0 \<le> fst goal \<and> fst goal < rows m \<and> 0 \<le> snd goal \<and> snd goal < cols m) then
        Some (Inr (False, None))
      else (case cell m (fst start) (snd start) of
              Inl e \<Rightarrow> Some (Inl e)
            | Inr vs \<Rightarrow>
                if vs = 1 then Some (Inr (False, None))
                else (case cell m (fst goal) (snd goal) of
                        Inl e \<Rightarrow> Some (Inl e)
                      | Inr ve \<Rightarrow>
                          if ve = 1 then Some (Inr (False, None))
                          else if start = goal then Some (Inr (True, None))
                          else (case search m goal (init start) of
                                  None \<Rightarrow> None
                                | Some (Inl e) \<Rightarrow> Some (Inl e)
                                | Some (Inr (b, s)) \<Rightarrow> Some (Inr (b, Some s))))))"

definition find_path :: "grid \<Rightarrow> pos \<Rightarrow> pos \<Rightarrow> (error + bool) option" where
  "find_path m start goal = map_option (map_sum id fst) (find_path_run m start goal)"

subsection \<open>Well-formed grids\<close>

definition in_bounds :: "grid \<Rightarrow> pos \<Rightarrow> bool" where
  "in_bounds m p \<longleftrightarrow> 0 \<le> fst p \<and> fst p < rows m \<and> 0 \<le> snd p \<and> snd p < cols m"

definition rectangular :: "grid \<Rightarrow> bool" where
  "rectangular m \<longleftrightarrow> (\<forall>row \<in> set m. int (length row) = cols m)"

definition binary :: "grid \<Rightarrow> bool" where
  "binary m \<longleftrightarrow> (\<forall>row \<in> set m. \<forall>v \<in> set row. v = 0 \<or> v = 1)"

text \<open>The value of an in-bounds cell of a rectangular grid.\<close>

definition at :: "grid \<Rightarrow> pos \<Rightarrow> int" where
  "at m p = m ! nat (fst p) ! nat (snd p)"

definition occupied :: "grid \<Rightarrow> pos \<Rightarrow> bool" where
  "occupied m p \<longleftrightarrow> at m p = 1"

definition open_cell :: "grid \<Rightarrow> pos \<Rightarrow> bool" where
  "open_cell m p \<longleftrightarrow> in_bounds m p \<and> at m p = 0"

text \<open>The four offsets applied to a coordinate, in the order of \<^verbatim>\<open>directions\<close>.\<close>

definition candidates :: "pos \<Rightarrow> pos list" where
  "candidates p = [(fst p - 1, snd p), (fst p + 1, snd p), (fst p, snd p - 1), (fst p, snd p + 1)]"

subsection \<open>Paths in the grid\<close>

text \<open>Two coordinates are adjacent when they differ by one step up, down, left or right.\<close>

definition adjacent :: "pos \<Rightarrow> pos \<Rightarrow> bool" where
  "adjacent p q \<longleftrightarrow> \<bar>fst p - fst q\<bar> + \<bar>snd p - snd q\<bar> = 1"

text \<open>A walk is a non-empty sequence of open cells, each adjacent to the next.\<close>

fun walk :: "grid \<Rightarrow> pos list \<Rightarrow> bool" where
  "walk m [] = False"
| "walk m [p] = open_cell m p"
| "walk m (p # q # ps) = (open_cell m p \<and> adjacent p q \<and> walk m (q # ps))"

definition path_between :: "grid \<Rightarrow> pos \<Rightarrow> pos \<Rightarrow> pos list \<Rightarrow> bool" where
  "path_between m a b ps \<longleftrightarrow> walk m ps \<and> hd ps = a \<and> last ps = b"

text \<open>The number of grid steps of a path.\<close>

definition steps :: "pos list \<Rightarrow> int" where
  "steps ps = int (length ps) - 1"

definition connected :: "grid \<Rightarrow> pos \<Rightarrow> pos \<Rightarrow> bool" where
  "connected m a b \<longleftrightarrow> (\<exists>ps. path_between m a b ps)"

subsection \<open>States at the head of the loop\<close>

text \<open>The search state when the loop condition is tested for the \<open>n\<close>-th time after the
  first, if the run gets there.\<close>

fun loop_state :: "grid \<Rightarrow> pos \<Rightarrow> pos \<Rightarrow> nat \<Rightarrow> search_state option" where
  "loop_state m start goal 0 = Some (init start)"
| "loop_state m start goal (Suc n) =
     (case loop_state m start goal n of
        None \<Rightarrow> None
      | Some s \<Rightarrow>
          if open_set s = [] then None
          else (case iteration m goal s of Continue s' \<Rightarrow> Some s' | _ \<Rightarrow> None))"

definition pos_of :: "entry \<Rightarrow> pos" where
  "pos_of e = snd (snd e)"

subsection \<open>The simplification proposed in the design notes\<close>

text \<open>The goal cost is recorded on the first pop of the goal only; a later pop of the
  goal leaves it as it is. Everything else is as in the source.\<close>

definition record_goal_first :: "pos \<Rightarrow> pos \<Rightarrow> int \<Rightarrow> search_state \<Rightarrow> search_state" where
  "record_goal_first goal current current_g s =
     (if current = goal then
        (case best_goal_cost s of
           None \<Rightarrow> s\<lparr>best_goal_cost := Some current_g\<rparr>
         | Some b \<Rightarrow> s)
      else s)"

definition iteration_first :: "grid \<Rightarrow> pos \<Rightarrow> search_state \<Rightarrow> outcome" where
  "iteration_first m goal s =
     (case heappop (open_set s) of
        ((current_f, _, current), rest) \<Rightarrow>
          (let s1 = s\<lparr>open_set := rest, open_set_hash := open_set_hash s - {current}\<rparr> in
           case g_score s1 current of
             None \<Rightarrow> Raise KeyError
           | Some current_g \<Rightarrow>
               (let s2 = record_goal_first goal current current_g s1 in
                if (case best_goal_cost s2 of None \<Rightarrow> False | Some b \<Rightarrow> current_f \<ge> b)
                then Return True s2
                else (case get_neighbors m current of
                        Inl e \<Rightarrow> Raise e
                      | Inr ns \<Rightarrow> Continue (fold (relax goal current_g) ns s2)))))"

partial_function (option) search_first :: "grid \<Rightarrow> pos \<Rightarrow> search_state \<Rightarrow> (error + bool \<times> search_state) option" where
  "search_first m goal s =
     (if open_set s = [] then Some (Inr (False, s))
      else (case iteration_first m goal s of
              Raise e \<Rightarrow> Some (Inl e)
            | Return b s' \<Rightarrow> Some (Inr (b, s'))
            | Continue s' \<Rightarrow> search_first m goal s'))"

declare search_first.simps [code]

definition find_path_first_run :: "grid \<Rightarrow> pos \<Rightarrow> pos \<Rightarrow> (error + bool \<times> search_state option) option" where
  "find_path_first_run m start goal =
     (if \<not> (0 \<le> fst start \<and> fst start < rows m \<and> 0 \<le> snd start \<and> snd start < cols m) then
        Some (Inr (False, None))
      else if \<not> (0 \<le> fst goal \<and> fst goal < rows m \<and> 0 \<le> snd goal \<and> snd goal < cols m) then
        Some (Inr (False, None))
      else (case cell m (fst start) (snd start) of
              Inl e \<Rightarrow> Some (Inl e)
            | Inr vs \<Rightarrow>
                if vs = 1 then Some (Inr (False, None))
                else (case cell m (fst goal) (snd goal) of
                        Inl e \<Rightarrow> Some (Inl e)
                      | Inr ve \<Rightarrow>
                          if ve = 1 then Some (Inr (False, None))
                          else if start = goal then Some (Inr (True, None))
                          else (case search_first m goal (init start) of
                                  None \<Rightarrow> None
                                | Some (Inl e) \<Rightarrow> Some (Inl e)
                                | Some (Inr (b, s)) \<Rightarrow> Some (Inr (b, Some s))))))"

definition find_path_first :: "grid \<Rightarrow> pos \<Rightarrow> pos \<Rightarrow> (error + bool) option" where
  "find_path_first m start goal = map_option (map_sum id fst) (find_path_first_run m start goal)"

subsection \<open>Invariants of the loop\<close>

text \<open>The frontier holds each coordinate at most once, the membership set mirrors
  it, and every coordinate in it has a recorded cost.\<close>

definition frontier_inv :: "search_state \<Rightarrow> bool" where
  "frontier_inv s \<longleftrightarrow>
     distinct (map pos_of (open_set s))
     \<and> open_set_hash s = pos_of ` set (open_set s)
     \<and> pos_of ` set (open_set s) \<subseteq> dom (g_score s)"

text \<open>The coordinates a search from \<open>start\<close> can ever record.\<close>

definition universe :: "grid \<Rightarrow> pos \<Rightarrow> pos set" where
  "universe m start = insert start {p. in_bounds m p}"

definition cost_inv :: "grid \<Rightarrow> pos \<Rightarrow> pos \<Rightarrow> search_state \<Rightarrow> bool" where
  "cost_inv m start goal s \<longleftrightarrow>
     best_goal_cost s = None
     \<and> (\<forall>e \<in> set (open_set s). pos_of e = goal \<longrightarrow> (\<exists>g. g_score s goal = Some g \<and> g \<le> fst e))
     \<and> dom (g_score s) \<subseteq> universe m start
     \<and> (\<forall>p g. g_score s p = Some g \<longrightarrow> 0 \<le> g \<and> g < int (card (dom (g_score s))))"

definition loop_inv :: "grid \<Rightarrow> pos \<Rightarrow> pos \<Rightarrow> search_state \<Rightarrow> bool" where
  "loop_inv m start goal s \<longleftrightarrow> frontier_inv s \<and> cost_inv m start goal s"

text \<open>The quantity that decreases with every pass through the loop.\<close>

definition potential :: "grid \<Rightarrow> pos \<Rightarrow> search_state \<Rightarrow> pos \<Rightarrow> nat" where
  "potential m start s p =
     (case g_score s p of None \<Rightarrow> card (universe m start) | Some g \<Rightarrow> nat g)"

definition work :: "grid \<Rightarrow> pos \<Rightarrow> search_state \<Rightarrow> nat" where
  "work m start s = 2 * (\<Sum>p \<in> universe m start. potential m start s p) + length (open_set s)"

text \<open>Recorded costs are lengths of walks from \<open>start\<close>, and a coordinate that has left
  the frontier has all its open neighbours recorded and is not the goal.\<close>

definition explored_inv :: "grid \<Rightarrow> pos \<Rightarrow> pos \<Rightarrow> search_state \<Rightarrow> bool" where
  "explored_inv m start goal s \<longleftrightarrow>
     start \<in> dom (g_score s)
     \<and> (\<forall>p g. g_score s p = Some g \<longrightarrow> (\<exists>ps. path_between m start p ps \<and> steps ps = g))
     \<and> (\<forall>p \<in> dom (g_score s). p \<notin> open_set_hash s \<longrightarrow>
           p \<noteq> goal \<and> (\<forall>q. open_cell m q \<and> adjacent p q \<longrightarrow> q \<in> dom (g_score s)))"

subsection \<open>Auxiliary notions for the proofs\<close>

text \<open>Whether the inner loop records a new cost for a neighbour, the entry the next
  \<^verbatim>\<open>heappop\<close> returns, and the state after popping an entry.\<close>

definition improves :: "search_state \<Rightarrow> int \<Rightarrow> pos \<Rightarrow> bool" where
  "improves s cg n \<longleftrightarrow> (case g_score s n of None \<Rightarrow> True | Some g \<Rightarrow> cg + 1 < g)"

definition least_entry :: "search_state \<Rightarrow> entry" where
  "least_entry s = Min (set (open_set s))"

definition popped :: "entry \<Rightarrow> search_state \<Rightarrow> search_state" where
  "popped e s = s\<lparr>open_set := remove1 e (open_set s), open_set_hash := open_set_hash s - {pos_of e}\<rparr>"

text \<open>The reachability invariant while the neighbours of the popped coordinate \<open>c\<close> are
  still being visited.\<close>

definition explored_except :: "grid \<Rightarrow> pos \<Rightarrow> pos \<Rightarrow> pos \<Rightarrow> search_state \<Rightarrow> bool" where
  "explored_except m start goal c s \<longleftrightarrow>
     start \<in> dom (g_score s)
     \<and> (\<forall>p g. g_score s p = Some g \<longrightarrow> (\<exists>ps. path_between m start p ps \<and> steps ps = g))
     \<and> (\<forall>p \<in> dom (g_score s). p \<notin> open_set_hash s \<longrightarrow> p \<noteq> c \<longrightarrow>
           p \<noteq> goal \<and> (\<forall>q. open_cell m q \<and> adjacent p q \<longrightarrow> q \<in> dom (g_score s)))"

subsection \<open>Example grids\<close>

text \<open>A single open cell inside walls, a corridor of two open cells, a grid on which a
  better cost is found for a coordinate waiting in the frontier, and a grid on which the
  goal is popped with a cost that is not the shortest.\<close>

definition walled_cell :: grid where
  "walled_cell = [[1, 1, 1], [1, 0, 1], [1, 1, 1]]"

definition corridor :: grid where
  "corridor = [[1, 1, 1, 1], [1, 0, 0, 1], [1, 1, 1, 1]]"

definition pocket :: grid where
  "pocket = [[0, 0, 0, 0, 0], [0, 0, 0, 1, 0], [0, 1, 0, 0, 0]]"

definition detour :: grid where
  "detour = [[1, 1, 0, 0, 0, 0, 1, 0], [0, 0, 0, 1, 1, 0, 1, 0], [0, 1, 0, 0, 1, 0, 0, 0], [0, 0, 0, 0, 0, 0, 1, 1]]"

definition detour_path :: "pos list" where
  "detour_path = [(2, 0), (3, 0), (3, 1), (3, 2), (3, 3), (3, 4), (3, 5), (2, 5), (2, 6), (2, 7), (1, 7), (0, 7)]"

section \<open>Basic facts\<close>

lemma cell_in_bounds:
  assumes "rectangular m" "in_bounds m p"
  shows "cell m (fst p) (snd p) = Inr (at m p)"
proof -
  from assms(2) have r: "0 \<le> fst p" "nat (fst p) < length m" and c: "0 \<le> snd p" "snd p < cols m"
    by (auto simp: in_bounds_def rows_def)
  from r have "m ! nat (fst p) \<in> set m" by simp
  with assms(1) have "int (length (m ! nat (fst p))) = cols m" by (simp add: rectangular_def)
  with r c show ?thesis
    by (simp add: cell_def getitem_def at_def Let_def)
qed

lemma binary_at:
  assumes "binary m" "rectangular m" "in_bounds m p"
  shows "at m p = 0 \<or> at m p = 1"
proof -
  from assms(3) have r: "nat (fst p) < length m" and c: "0 \<le> snd p" "snd p < cols m"
    by (auto simp: in_bounds_def rows_def)
  from r have mem: "m ! nat (fst p) \<in> set m" by simp
  with assms(2) have "int (length (m ! nat (fst p))) = cols m" by (simp add: rectangular_def)
  with c have "nat (snd p) < length (m ! nat (fst p))" by simp
  then have "at m p \<in> set (m ! nat (fst p))" by (simp add: at_def)
  with assms(1) mem show ?thesis by (auto simp: binary_def)
qed

lemma neighbors_loop_rect:
  assumes "rectangular m"
  shows "neighbors_loop m p ds acc =
         Inr (acc @ filter (open_cell m) (map (\<lambda>d. (fst p + fst d, snd p + snd d)) ds))"
proof (induction ds arbitrary: acc)
  case Nil
  show ?case by simp
next
  case (Cons d ds)
  let ?q = "(fst p + fst d, snd p + snd d)"
  show ?case
  proof (cases "in_bounds m ?q")
    case True
    with assms have "cell m (fst p + fst d) (snd p + snd d) = Inr (at m ?q)"
      using cell_in_bounds [of m ?q] by simp
    with True have "neighbors_loop m p (d # ds) acc =
        (if at m ?q = 0 then neighbors_loop m p ds (acc @ [?q]) else neighbors_loop m p ds acc)"
      by (simp add: Let_def in_bounds_def)
    moreover from True have "open_cell m ?q \<longleftrightarrow> at m ?q = 0"
      by (simp add: open_cell_def)
    ultimately show ?thesis
      by (simp add: Cons.IH)
  next
    case False
    then have "neighbors_loop m p (d # ds) acc = neighbors_loop m p ds acc"
      by (auto simp: Let_def in_bounds_def)
    moreover from False have "\<not> open_cell m ?q"
      by (simp add: open_cell_def)
    ultimately show ?thesis
      by (simp add: Cons.IH)
  qed
qed

lemma get_neighbors_rect:
  assumes "rectangular m"
  shows "get_neighbors m p = Inr (filter (open_cell m) (candidates p))"
  using neighbors_loop_rect [OF assms, of p directions "[]"]
  by (simp add: get_neighbors_def directions_def candidates_def)

lemma distinct_candidates: "distinct (candidates p)"
  by (simp add: candidates_def)

section \<open>The inner loop and one pass of the outer loop\<close>

lemma relax_keep: "\<not> improves s cg n \<Longrightarrow> relax goal cg n s = s"
  by (simp add: relax_def improves_def Let_def)

lemma relax_pending:
  "improves s cg n \<Longrightarrow> n \<in> open_set_hash s \<Longrightarrow>
   relax goal cg n s = s\<lparr>g_score := (g_score s)(n \<mapsto> cg + 1)\<rparr>"
  by (simp add: relax_def improves_def Let_def)

lemma relax_push:
  "improves s cg n \<Longrightarrow> n \<notin> open_set_hash s \<Longrightarrow>
   relax goal cg n s = s\<lparr>g_score := (g_score s)(n \<mapsto> cg + 1),
     open_set := open_set s @ [(cg + 1 + heuristic n goal, counter s, n)],
     counter := counter s + 1,
     open_set_hash := insert n (open_set_hash s)\<rparr>"
  by (simp add: relax_def improves_def Let_def heappush_def)

lemma relax_frontier_inv:
  assumes "frontier_inv s"
  shows "frontier_inv (relax goal cg n s)"
proof (cases "improves s cg n")
  case False
  with assms show ?thesis by (simp add: relax_keep)
next
  case True
  show ?thesis
  proof (cases "n \<in> open_set_hash s")
    case True
    with \<open>improves s cg n\<close> assms show ?thesis
      by (auto simp: relax_pending frontier_inv_def)
  next
    case False
    with \<open>improves s cg n\<close> assms show ?thesis
      by (auto simp: relax_push frontier_inv_def pos_of_def)
  qed
qed

lemma finite_universe: "finite (universe m start)"
proof -
  have "{p. in_bounds m p} \<subseteq> {0..<rows m} \<times> {0..<cols m}"
    by (auto simp: in_bounds_def)
  then have "finite {p. in_bounds m p}"
    by (rule finite_subset) simp
  then show ?thesis by (simp add: universe_def)
qed

lemma relax_dom: "dom (g_score s) \<subseteq> dom (g_score (relax goal cg n s))"
  by (cases "improves s cg n"; cases "n \<in> open_set_hash s")
     (auto simp: relax_keep relax_pending relax_push)

lemma relax_dom_new: "n \<in> dom (g_score (relax goal cg n s))"
  by (cases "improves s cg n"; cases "n \<in> open_set_hash s")
     (auto simp: relax_keep relax_pending relax_push improves_def split: option.splits)

lemma relax_best: "best_goal_cost (relax goal cg n s) = best_goal_cost s"
  by (cases "improves s cg n"; cases "n \<in> open_set_hash s")
     (auto simp: relax_keep relax_pending relax_push)

lemma relax_hash: "open_set_hash s \<subseteq> open_set_hash (relax goal cg n s)"
  by (cases "improves s cg n"; cases "n \<in> open_set_hash s")
     (auto simp: relax_keep relax_pending relax_push)

lemma relax_cost_inv:
  assumes inv: "cost_inv m start goal s" and fr: "frontier_inv s"
    and n: "n \<in> universe m start" and cg: "0 \<le> cg" "cg < int (card (dom (g_score s)))"
  shows "cost_inv m start goal (relax goal cg n s)"
proof (cases "improves s cg n")
  case False
  with inv show ?thesis by (simp add: relax_keep)
next
  case imp: True
  have fin: "finite (dom (g_score s))"
    using inv finite_universe [of m start] by (auto simp: cost_inv_def intro: finite_subset)
  have old: "\<And>p g. g_score s p = Some g \<Longrightarrow> 0 \<le> g \<and> g < int (card (dom (g_score s)))"
    using inv unfolding cost_inv_def by blast
  let ?g' = "(g_score s)(n \<mapsto> cg + 1)"
  have card: "card (dom (g_score s)) \<le> card (dom ?g')"
    using fin by (auto intro: card_mono)
  have card_new: "g_score s n = None \<Longrightarrow> card (dom ?g') = Suc (card (dom (g_score s)))"
    using fin by (simp add: domIff)
  have bound: "\<forall>p g. ?g' p = Some g \<longrightarrow> 0 \<le> g \<and> g < int (card (dom ?g'))"
  proof (intro allI impI)
    fix p g assume pg: "?g' p = Some g"
    show "0 \<le> g \<and> g < int (card (dom ?g'))"
    proof (cases "p = n")
      case True
      with pg have g: "g = cg + 1" by simp
      show ?thesis
      proof (cases "g_score s n")
        case None
        with card_new cg g show ?thesis by simp
      next
        case (Some g0)
        with imp have "cg + 1 < g0" by (simp add: improves_def)
        moreover from Some have "g0 < int (card (dom (g_score s)))"
          using old by blast
        ultimately show ?thesis using g cg card by simp
      qed
    next
      case False
      with pg have "g_score s p = Some g" by simp
      then have "0 \<le> g \<and> g < int (card (dom (g_score s)))"
        by (rule old)
      with card show ?thesis by simp
    qed
  qed
  have dom: "dom ?g' \<subseteq> universe m start"
    using inv n by (auto simp: cost_inv_def)
  have goal_old: "\<forall>e \<in> set (open_set s). pos_of e = goal \<longrightarrow> (\<exists>g. ?g' goal = Some g \<and> g \<le> fst e)"
  proof (intro ballI impI)
    fix e assume e: "e \<in> set (open_set s)" "pos_of e = goal"
    with inv obtain g0 where g0: "g_score s goal = Some g0" "g0 \<le> fst e"
      by (auto simp: cost_inv_def)
    show "\<exists>g. ?g' goal = Some g \<and> g \<le> fst e"
    proof (cases "n = goal")
      case True
      with imp g0 have "cg + 1 < g0" by (simp add: improves_def)
      with g0 True show ?thesis by simp
    next
      case False
      with g0 show ?thesis by simp
    qed
  qed
  show ?thesis
  proof (cases "n \<in> open_set_hash s")
    case True
    with imp inv bound dom goal_old show ?thesis
      by (simp add: relax_pending cost_inv_def)
  next
    case False
    have "heuristic goal goal = 0" by (simp add: heuristic_def)
    with False imp inv bound dom goal_old show ?thesis
      by (auto simp: relax_push cost_inv_def pos_of_def)
  qed
qed


lemma finite_dom_g: "cost_inv m start goal s \<Longrightarrow> finite (dom (g_score s))"
  using finite_universe [of m start] by (auto simp: cost_inv_def intro: finite_subset)

lemma relax_card:
  assumes "cost_inv m start goal s" "frontier_inv s" "n \<in> universe m start"
    "0 \<le> cg" "cg < int (card (dom (g_score s)))"
  shows "cg < int (card (dom (g_score (relax goal cg n s))))"
proof -
  have "finite (dom (g_score (relax goal cg n s)))"
    using relax_cost_inv [OF assms] by (rule finite_dom_g)
  then have "card (dom (g_score s)) \<le> card (dom (g_score (relax goal cg n s)))"
    using relax_dom by (rule card_mono)
  with assms(5) show ?thesis by simp
qed

lemma potential_sum_update:
  assumes n: "n \<in> universe m start"
    and g: "g_score s' = (g_score s)(n \<mapsto> v)"
    and less: "nat v < potential m start s n"
  shows "(\<Sum>p \<in> universe m start. potential m start s' p) < (\<Sum>p \<in> universe m start. potential m start s p)"
proof -
  let ?U = "universe m start"
  have fin: "finite ?U" by (rule finite_universe)
  have same: "potential m start s' p = potential m start s p" if "p \<in> ?U - {n}" for p
    using that g by (simp add: potential_def)
  have new: "potential m start s' n = nat v"
    using g by (simp add: potential_def)
  have "(\<Sum>p \<in> ?U. potential m start s' p) = potential m start s' n + (\<Sum>p \<in> ?U - {n}. potential m start s' p)"
    using fin n by (rule sum.remove)
  also have "(\<Sum>p \<in> ?U - {n}. potential m start s' p) = (\<Sum>p \<in> ?U - {n}. potential m start s p)"
    using same by (rule sum.cong [OF refl])
  also have "potential m start s' n + \<dots> < potential m start s n + (\<Sum>p \<in> ?U - {n}. potential m start s p)"
    using new less by simp
  also have "\<dots> = (\<Sum>p \<in> ?U. potential m start s p)"
    using fin n by (rule sum.remove [symmetric])
  finally show ?thesis .
qed

lemma improves_potential:
  assumes inv: "cost_inv m start goal s" and n: "n \<in> universe m start"
    and cg: "0 \<le> cg" "cg < int (card (dom (g_score s)))" and imp: "improves s cg n"
  shows "nat (cg + 1) < potential m start s n"
proof (cases "g_score s n")
  case None
  then have "n \<notin> dom (g_score s)" by (simp add: domIff)
  with n inv have "dom (g_score s) \<subset> universe m start"
    by (auto simp: cost_inv_def)
  then have "card (dom (g_score s)) < card (universe m start)"
    using finite_universe by (simp add: psubset_card_mono)
  with cg None show ?thesis by (simp add: potential_def)
next
  case (Some g0)
  with imp have "cg + 1 < g0" by (simp add: improves_def)
  with cg Some show ?thesis by (simp add: potential_def)
qed

lemma relax_work:
  assumes inv: "cost_inv m start goal s" and n: "n \<in> universe m start"
    and cg: "0 \<le> cg" "cg < int (card (dom (g_score s)))"
  shows "work m start (relax goal cg n s) \<le> work m start s"
proof (cases "improves s cg n")
  case False
  then show ?thesis by (simp add: relax_keep)
next
  case imp: True
  have less: "nat (cg + 1) < potential m start s n"
    using inv n cg imp by (rule improves_potential)
  show ?thesis
  proof (cases "n \<in> open_set_hash s")
    case True
    with imp have "g_score (relax goal cg n s) = (g_score s)(n \<mapsto> cg + 1)"
      and "open_set (relax goal cg n s) = open_set s"
      by (simp_all add: relax_pending)
    with potential_sum_update [OF n _ less, of "relax goal cg n s"] show ?thesis
      by (simp add: work_def)
  next
    case False
    with imp have "g_score (relax goal cg n s) = (g_score s)(n \<mapsto> cg + 1)"
      and "length (open_set (relax goal cg n s)) = Suc (length (open_set s))"
      by (simp_all add: relax_push)
    with potential_sum_update [OF n _ less, of "relax goal cg n s"] show ?thesis
      by (simp add: work_def)
  qed
qed

lemma fold_relax:
  assumes "loop_inv m start goal s" "set ns \<subseteq> universe m start"
    "0 \<le> cg" "cg < int (card (dom (g_score s)))"
  shows "loop_inv m start goal (fold (relax goal cg) ns s)
     \<and> work m start (fold (relax goal cg) ns s) \<le> work m start s"
  using assms
proof (induction ns arbitrary: s)
  case Nil
  then show ?case by simp
next
  case (Cons n ns)
  from Cons.prems have fr: "frontier_inv s" and ci: "cost_inv m start goal s"
    and n: "n \<in> universe m start" and ns: "set ns \<subseteq> universe m start"
    by (simp_all add: loop_inv_def)
  let ?s = "relax goal cg n s"
  have inv': "loop_inv m start goal ?s"
    using relax_frontier_inv [OF fr] relax_cost_inv [OF ci fr n Cons.prems(3,4)]
    by (simp add: loop_inv_def)
  have card': "cg < int (card (dom (g_score ?s)))"
    using ci fr n Cons.prems(3,4) by (rule relax_card)
  have w: "work m start ?s \<le> work m start s"
    using ci n Cons.prems(3,4) by (rule relax_work)
  from Cons.IH [OF inv' ns Cons.prems(3) card'] w show ?case by simp
qed

lemma neighbors_loop_in_bounds:
  "neighbors_loop m p ds acc = Inr ns \<Longrightarrow> set ns \<subseteq> set acc \<union> {q. in_bounds m q}"
proof (induction ds arbitrary: acc)
  case Nil
  then show ?case by auto
next
  case (Cons d ds)
  let ?q = "(fst p + fst d, snd p + snd d)"
  show ?case
  proof (cases "in_bounds m ?q")
    case False
    then have "neighbors_loop m p (d # ds) acc = neighbors_loop m p ds acc"
      by (auto simp: Let_def in_bounds_def)
    with Cons show ?thesis by simp
  next
    case True
    then have eq: "neighbors_loop m p (d # ds) acc =
        (case cell m (fst ?q) (snd ?q) of Inl e \<Rightarrow> Inl e
         | Inr v \<Rightarrow> if v = 0 then neighbors_loop m p ds (acc @ [?q]) else neighbors_loop m p ds acc)"
      by (simp add: Let_def in_bounds_def)
    show ?thesis
    proof (cases "cell m (fst ?q) (snd ?q)")
      case (Inl e)
      with eq Cons.prems show ?thesis by simp
    next
      case (Inr v)
      show ?thesis
      proof (cases "v = 0")
        case v: True
        with eq Inr Cons.prems have "neighbors_loop m p ds (acc @ [?q]) = Inr ns" by simp
        from Cons.IH [OF this] True show ?thesis by auto
      next
        case v: False
        with eq Inr Cons.prems have "neighbors_loop m p ds acc = Inr ns" by simp
        from Cons.IH [OF this] show ?thesis .
      qed
    qed
  qed
qed

lemma get_neighbors_universe:
  "get_neighbors m p = Inr ns \<Longrightarrow> set ns \<subseteq> universe m start"
  using neighbors_loop_in_bounds [of m p directions "[]" ns]
  by (auto simp: get_neighbors_def universe_def)

lemma iteration_unfold:
  "iteration m goal s =
     (case g_score s (pos_of (least_entry s)) of
        None \<Rightarrow> Raise KeyError
      | Some cg \<Rightarrow>
          if (case best_goal_cost (record_goal goal (pos_of (least_entry s)) cg (popped (least_entry s) s)) of
                None \<Rightarrow> False | Some b \<Rightarrow> b \<le> fst (least_entry s))
          then Return True (record_goal goal (pos_of (least_entry s)) cg (popped (least_entry s) s))
          else (case get_neighbors m (pos_of (least_entry s)) of
                  Inl x \<Rightarrow> Raise x
                | Inr ns \<Rightarrow> Continue (fold (relax goal cg) ns (record_goal goal (pos_of (least_entry s)) cg (popped (least_entry s) s)))))"
proof -
  obtain f c p where "Min (set (open_set s)) = (f, c, p)"
    by (cases "Min (set (open_set s))") auto
  then show ?thesis
    by (simp add: iteration_def heappop_def pos_of_def popped_def least_entry_def Let_def
          split: option.split sum.split)
qed

lemma distinct_map_remove1:
  "distinct (map f xs) \<Longrightarrow> e \<in> set xs \<Longrightarrow>
   distinct (map f (remove1 e xs)) \<and> f ` set (remove1 e xs) = f ` set xs - {f e}"
  by (induction xs) auto

lemma popped_loop_inv:
  assumes "loop_inv m start goal s" "e \<in> set (open_set s)"
  shows "loop_inv m start goal (popped e s)"
proof -
  from assms have d: "distinct (map pos_of (open_set s))"
    by (simp add: loop_inv_def frontier_inv_def)
  note r = distinct_map_remove1 [OF d assms(2)]
  have sub: "set (remove1 e (open_set s)) \<subseteq> set (open_set s)"
    by (rule set_remove1_subset)
  from assms(1) r have "frontier_inv (popped e s)"
    by (auto simp: loop_inv_def frontier_inv_def popped_def)
  moreover from assms(1) sub have "cost_inv m start goal (popped e s)"
    by (auto simp: loop_inv_def cost_inv_def popped_def)
  ultimately show ?thesis by (simp add: loop_inv_def)
qed

lemma popped_work:
  assumes "e \<in> set (open_set s)"
  shows "work m start (popped e s) < work m start s"
proof -
  have "potential m start (popped e s) = potential m start s"
    by (rule ext) (simp add: potential_def popped_def)
  moreover from assms have "length (remove1 e (open_set s)) < length (open_set s)"
    by (simp add: length_remove1) (cases "open_set s"; simp)
  ultimately show ?thesis by (simp add: work_def popped_def)
qed

lemma iteration_shape:
  assumes inv: "loop_inv m start goal s" and ne: "open_set s \<noteq> []"
  shows "least_entry s \<in> set (open_set s) \<and> (\<exists>cg. g_score s (pos_of (least_entry s)) = Some cg
    \<and> 0 \<le> cg \<and> cg < int (card (dom (g_score s)))
    \<and> (pos_of (least_entry s) = goal \<longrightarrow>
          iteration m goal s = Return True ((popped (least_entry s) s)\<lparr>best_goal_cost := Some cg\<rparr>))
    \<and> (pos_of (least_entry s) \<noteq> goal \<longrightarrow> iteration m goal s =
        (case get_neighbors m (pos_of (least_entry s)) of
           Inl x \<Rightarrow> Raise x
         | Inr ns \<Rightarrow> Continue (fold (relax goal cg) ns (popped (least_entry s) s)))))"
proof -
  let ?e = "least_entry s"
  from ne have mem: "?e \<in> set (open_set s)" by (simp add: least_entry_def)
  with inv have "pos_of ?e \<in> dom (g_score s)"
    by (auto simp: loop_inv_def frontier_inv_def)
  then obtain cg where cg: "g_score s (pos_of ?e) = Some cg" by blast
  with inv have bound: "0 \<le> cg" "cg < int (card (dom (g_score s)))"
    unfolding loop_inv_def cost_inv_def by blast+
  from inv have none: "best_goal_cost (popped ?e s) = None"
    by (simp add: loop_inv_def cost_inv_def popped_def)
  have 1: "iteration m goal s = Return True ((popped ?e s)\<lparr>best_goal_cost := Some cg\<rparr>)"
    if "pos_of ?e = goal"
  proof -
    from inv mem that cg have "cg \<le> fst ?e"
      unfolding loop_inv_def cost_inv_def by force
    with that cg none show ?thesis
      by (simp add: iteration_unfold record_goal_def)
  qed
  have 2: "iteration m goal s =
        (case get_neighbors m (pos_of ?e) of
           Inl x \<Rightarrow> Raise x
         | Inr ns \<Rightarrow> Continue (fold (relax goal cg) ns (popped ?e s)))"
    if "pos_of ?e \<noteq> goal"
    using that cg none by (simp add: iteration_unfold record_goal_def split: sum.split)
  from mem cg bound 1 2 show ?thesis by blast
qed

lemma iteration_continue:
  assumes inv: "loop_inv m start goal s" and ne: "open_set s \<noteq> []"
    and it: "iteration m goal s = Continue s'"
  shows "loop_inv m start goal s' \<and> work m start s' < work m start s"
proof -
  let ?e = "least_entry s"
  from iteration_shape [OF inv ne] obtain cg where e: "?e \<in> set (open_set s)"
    and b: "0 \<le> cg" "cg < int (card (dom (g_score s)))"
    and 1: "pos_of ?e = goal \<longrightarrow> iteration m goal s = Return True ((popped ?e s)\<lparr>best_goal_cost := Some cg\<rparr>)"
    and 2: "pos_of ?e \<noteq> goal \<longrightarrow> iteration m goal s =
        (case get_neighbors m (pos_of ?e) of
           Inl x \<Rightarrow> Raise x
         | Inr ns \<Rightarrow> Continue (fold (relax goal cg) ns (popped ?e s)))"
    by blast
  from 1 it have "pos_of ?e \<noteq> goal" by auto
  with 2 it obtain ns where ns: "get_neighbors m (pos_of ?e) = Inr ns"
    and s': "s' = fold (relax goal cg) ns (popped ?e s)"
    by (auto split: sum.splits)
  have pinv: "loop_inv m start goal (popped ?e s)" using inv e by (rule popped_loop_inv)
  have b': "cg < int (card (dom (g_score (popped ?e s))))" using b by (simp add: popped_def)
  from fold_relax [OF pinv get_neighbors_universe [OF ns] b(1) b'] popped_work [OF e, of m start] s'
  show ?thesis by auto
qed

section \<open>Claims about the heuristic and the neighbour enumerator\<close>

text \<open>
  C9: the heuristic is the Manhattan distance \<open>|a.row - b.row| + |a.col - b.col|\<close>;
  it is symmetric, zero from a coordinate to itself, and never negative.
\<close>

theorem heuristic_manhattan:
  "heuristic (ar, ac) (br, bc) = \<bar>ar - br\<bar> + \<bar>ac - bc\<bar>
   \<and> heuristic a b = heuristic b a \<and> heuristic a a = 0 \<and> 0 \<le> heuristic a b"
  by (simp add: heuristic_def abs_minus_commute)

text \<open>
  C8: on a rectangular binary grid the neighbour enumerator looks at the four offsets
  (-1,0), (1,0), (0,-1), (0,1) in this order and returns exactly the results that are
  in bounds and unoccupied; so it returns at most four coordinates, none out of
  bounds or occupied, and none twice.
\<close>

theorem get_neighbors_spec:
  assumes "rectangular m" "binary m"
  shows "\<exists>ns. get_neighbors m (r, c) = Inr ns
     \<and> ns = filter (\<lambda>q. in_bounds m q \<and> \<not> occupied m q) [(r - 1, c), (r + 1, c), (r, c - 1), (r, c + 1)]
     \<and> length ns \<le> 4 \<and> (\<forall>q \<in> set ns. in_bounds m q \<and> \<not> occupied m q) \<and> distinct ns"
proof -
  have eq: "open_cell m q \<longleftrightarrow> in_bounds m q \<and> \<not> occupied m q" for q
    using binary_at [OF assms(2) assms(1), of q] by (auto simp: open_cell_def occupied_def)
  let ?ns = "filter (open_cell m) (candidates (r, c))"
  have "get_neighbors m (r, c) = Inr ?ns" by (rule get_neighbors_rect [OF assms(1)])
  moreover have "?ns = filter (\<lambda>q. in_bounds m q \<and> \<not> occupied m q) [(r - 1, c), (r + 1, c), (r, c - 1), (r, c + 1)]"
    using eq by (simp add: candidates_def)
  moreover have "length ?ns \<le> 4"
    using length_filter_le [of "open_cell m" "candidates (r, c)"] by (simp add: candidates_def)
  moreover have "\<forall>q \<in> set ?ns. in_bounds m q \<and> \<not> occupied m q" using eq by simp
  moreover have "distinct ?ns" using distinct_candidates by simp
  ultimately show ?thesis by blast
qed

theorem get_neighbors_spec_witness:
  "rectangular corridor \<and> binary corridor
   \<and> (\<exists>ns. get_neighbors corridor (1, 1) = Inr ns
     \<and> ns = filter (\<lambda>q. in_bounds corridor q \<and> \<not> occupied corridor q) [(1 - 1, 1), (1 + 1, 1), (1, 1 - 1), (1, 1 + 1)]
     \<and> length ns \<le> 4 \<and> (\<forall>q \<in> set ns. in_bounds corridor q \<and> \<not> occupied corridor q) \<and> distinct ns)"
proof -
  have r: "rectangular corridor"
    by (simp add: rectangular_def corridor_def cols_def rows_def)
  have b: "binary corridor"
    by (simp add: binary_def corridor_def)
  from get_neighbors_spec [OF r b, of 1 1] r b show ?thesis by blast
qed

section \<open>Termination and the simplified goal-cost update\<close>

lemma init_loop_inv: "loop_inv m start goal (init start)"
  by (simp add: loop_inv_def frontier_inv_def cost_inv_def init_def pos_of_def universe_def)

lemma loop_induct [consumes 1, case_names step]:
  assumes "loop_inv m start goal s"
    and "\<And>s. loop_inv m start goal s \<Longrightarrow>
           (\<And>s'. open_set s \<noteq> [] \<Longrightarrow> iteration m goal s = Continue s' \<Longrightarrow> P s') \<Longrightarrow> P s"
  shows "P s"
  using assms(1)
proof (induction "work m start s" arbitrary: s rule: less_induct)
  case less
  show ?case
  proof (rule assms(2) [OF less.prems])
    fix s' assume "open_set s \<noteq> []" "iteration m goal s = Continue s'"
    with less.prems have "loop_inv m start goal s' \<and> work m start s' < work m start s"
      by (rule iteration_continue)
    then show "P s'" using less.hyps by blast
  qed
qed

lemma search_returns:
  assumes "loop_inv m start goal s"
  shows "\<exists>r. search m goal s = Some r"
  using assms
proof (induction rule: loop_induct)
  case (step s)
  show ?case
  proof (cases "open_set s = []")
    case True
    then show ?thesis by (simp add: search.simps)
  next
    case False
    show ?thesis
    proof (cases "iteration m goal s")
      case (Continue s')
      with False step.IH [of s'] show ?thesis by (simp add: search.simps)
    qed (use False in \<open>simp_all add: search.simps\<close>)
  qed
qed

lemma iteration_rect:
  assumes "rectangular m" "loop_inv m start goal s" "open_set s \<noteq> []"
  shows "iteration m goal s \<noteq> Raise e"
proof -
  from iteration_shape [OF assms(2,3)] get_neighbors_rect [OF assms(1), of "pos_of (least_entry s)"]
  show ?thesis by (cases "pos_of (least_entry s) = goal") auto
qed

lemma search_rect:
  assumes "rectangular m" "loop_inv m start goal s"
  shows "\<exists>b s'. search m goal s = Some (Inr (b, s'))"
  using assms(2)
proof (induction rule: loop_induct)
  case (step s)
  show ?case
  proof (cases "open_set s = []")
    case True
    then show ?thesis by (auto simp: search.simps)
  next
    case False
    show ?thesis
    proof (cases "iteration m goal s")
      case (Continue s')
      with False step.IH [of s'] show ?thesis by (simp add: search.simps)
    next
      case (Raise e)
      with iteration_rect [OF assms(1) step.hyps False, of e] show ?thesis by simp
    next
      case (Return b s')
      with False show ?thesis by (simp add: search.simps)
    qed
  qed
qed

lemma iteration_first_eq:
  assumes "best_goal_cost s = None"
  shows "iteration_first m goal s = iteration m goal s"
proof -
  have "record_goal_first goal c g (s\<lparr>open_set := r, open_set_hash := h\<rparr>)
      = record_goal goal c g (s\<lparr>open_set := r, open_set_hash := h\<rparr>)" for c g r h
    using assms by (simp add: record_goal_first_def record_goal_def)
  then show ?thesis
    by (simp add: iteration_first_def iteration_def Let_def split: prod.split option.split)
qed

lemma search_first_eq:
  assumes "loop_inv m start goal s"
  shows "search_first m goal s = search m goal s"
  using assms
proof (induction rule: loop_induct)
  case (step s)
  from step.hyps have eq: "iteration_first m goal s = iteration m goal s"
    by (simp add: iteration_first_eq loop_inv_def cost_inv_def)
  show ?case
  proof (cases "open_set s = []")
    case True
    then show ?thesis by (simp add: search.simps search_first.simps)
  next
    case False
    show ?thesis
    proof (cases "iteration m goal s")
      case (Continue s')
      with False step.IH [of s'] eq show ?thesis
        by (simp add: search.simps [of m goal s] search_first.simps [of m goal s])
    qed (use False eq in \<open>simp_all add: search.simps [of m goal s] search_first.simps [of m goal s]\<close>)
  qed
qed

lemma find_path_first_run_eq: "find_path_first_run m start goal = find_path_run m start goal"
  by (simp add: find_path_first_run_def find_path_run_def search_first_eq [OF init_loop_inv]
        split: sum.split)

lemma loop_state_inv:
  "loop_state m start goal n = Some s \<Longrightarrow> loop_inv m start goal s"
proof (induction n arbitrary: s)
  case 0
  then have "s = init start" by simp
  then show ?case by (simp add: init_loop_inv)
next
  case (Suc n)
  from Suc.prems obtain s0 where s0: "loop_state m start goal n = Some s0"
    and ne: "open_set s0 \<noteq> []" and it: "iteration m goal s0 = Continue s"
    by (auto split: option.splits if_splits outcome.splits)
  from iteration_continue [OF Suc.IH [OF s0] ne it] show ?case by simp
qed

lemma goal_pop_returns:
  assumes "loop_inv m start goal s" "open_set s \<noteq> []" "pos_of (least_entry s) = goal"
  shows "\<exists>s'. iteration m goal s = Return True s'"
  using iteration_shape [OF assms(1,2)] assms(3) by auto


section \<open>Validation, totality and the frontier invariant\<close>

lemma find_path_run_invalid:
  assumes "rectangular m"
    and "\<not> in_bounds m start \<or> \<not> in_bounds m goal \<or> occupied m start \<or> occupied m goal"
  shows "find_path_run m start goal = Some (Inr (False, None))"
proof (cases "in_bounds m start \<and> in_bounds m goal")
  case False
  then show ?thesis by (auto simp: find_path_run_def in_bounds_def)
next
  case True
  with assms(1) have c: "cell m (fst start) (snd start) = Inr (at m start)"
    "cell m (fst goal) (snd goal) = Inr (at m goal)"
    by (simp_all add: cell_in_bounds)
  from True assms(2) have "at m start = 1 \<or> at m goal = 1" by (simp add: occupied_def)
  with True c show ?thesis by (auto simp: find_path_run_def in_bounds_def)
qed

lemma find_path_run_valid:
  assumes "rectangular m" "in_bounds m start" "in_bounds m goal"
    "\<not> occupied m start" "\<not> occupied m goal"
  shows "find_path_run m start goal =
     (if start = goal then Some (Inr (True, None))
      else (case search m goal (init start) of
              None \<Rightarrow> None
            | Some (Inl e) \<Rightarrow> Some (Inl e)
            | Some (Inr (b, s)) \<Rightarrow> Some (Inr (b, Some s))))"
proof -
  from assms have c: "cell m (fst start) (snd start) = Inr (at m start)"
    "cell m (fst goal) (snd goal) = Inr (at m goal)"
    by (simp_all add: cell_in_bounds)
  from assms have "at m start \<noteq> 1" "at m goal \<noteq> 1" by (simp_all add: occupied_def)
  with assms(2,3) c show ?thesis by (simp add: find_path_run_def in_bounds_def)
qed

lemma find_path_run_rect:
  assumes "rectangular m"
  shows "\<exists>b st. find_path_run m start goal = Some (Inr (b, st))"
proof (cases "in_bounds m start \<and> in_bounds m goal \<and> \<not> occupied m start \<and> \<not> occupied m goal")
  case False
  then have "find_path_run m start goal = Some (Inr (False, None))"
    using find_path_run_invalid [OF assms, of start goal] by blast
  then show ?thesis by blast
next
  case True
  from search_rect [OF assms init_loop_inv [of m start goal]] obtain b s'
    where "search m goal (init start) = Some (Inr (b, s'))" by blast
  with True show ?thesis by (auto simp: find_path_run_valid [OF assms])
qed

text \<open>
  C5: on a rectangular grid \<^verbatim>\<open>find_path\<close> terminates with a boolean for every pair of
  coordinates, in bounds or not; no error is raised.
\<close>

theorem find_path_total:
  assumes "rectangular m"
  shows "\<exists>b. find_path m start goal = Some (Inr b)"
proof -
  from find_path_run_rect [OF assms, of start goal] obtain b st
    where "find_path_run m start goal = Some (Inr (b, st))" by blast
  then show ?thesis by (simp add: find_path_def)
qed

lemma walled_cell_rectangular: "rectangular walled_cell"
  by (simp add: rectangular_def walled_cell_def cols_def rows_def)

theorem find_path_total_witness:
  "rectangular walled_cell \<and> (\<exists>b. find_path walled_cell (0, 0) (7, 7) = Some (Inr b))"
  using find_path_total [OF walled_cell_rectangular, of "(0, 0)" "(7, 7)"] walled_cell_rectangular
  by simp

text \<open>
  C6: a query whose start or end is out of bounds, or whose start or end cell is
  occupied, is answered \<open>False\<close> whatever the other endpoint is: no error is raised, and
  the call returns before the search state is created.
\<close>

theorem invalid_query_false:
  assumes "rectangular m"
    and "\<not> in_bounds m start \<or> \<not> in_bounds m goal \<or> occupied m start \<or> occupied m goal"
  shows "find_path m start goal = Some (Inr False)
     \<and> find_path_run m start goal = Some (Inr (False, None))"
  using find_path_run_invalid [OF assms] by (simp add: find_path_def)

theorem invalid_query_false_witness:
  "rectangular walled_cell \<and> occupied walled_cell (0, 0)
   \<and> find_path walled_cell (0, 0) (1, 1) = Some (Inr False)
   \<and> find_path_run walled_cell (0, 0) (1, 1) = Some (Inr (False, None))"
proof -
  have occ: "occupied walled_cell (0, 0)"
    by (simp add: occupied_def at_def walled_cell_def)
  then have "\<not> in_bounds walled_cell (0, 0) \<or> \<not> in_bounds walled_cell (1, 1)
      \<or> occupied walled_cell (0, 0) \<or> occupied walled_cell (1, 1)" by simp
  from invalid_query_false [OF walled_cell_rectangular this] occ walled_cell_rectangular
  show ?thesis by simp
qed

text \<open>
  C10: whenever the loop condition is tested, the membership set is the set of
  coordinates in the frontier, no coordinate is in two frontier entries, and every
  coordinate in the frontier has a recorded cost, so that the lookup after the pop
  finds it.
\<close>

theorem frontier_mirror_invariant:
  assumes "loop_state m start goal n = Some s"
  shows "open_set_hash s = pos_of ` set (open_set s)
     \<and> distinct (map pos_of (open_set s))
     \<and> (\<forall>e \<in> set (open_set s). \<exists>g. g_score s (pos_of e) = Some g)
     \<and> (open_set s \<noteq> [] \<longrightarrow> (\<exists>g. g_score s (pos_of (fst (heappop (open_set s)))) = Some g))"
proof -
  from loop_state_inv [OF assms] have fr: "frontier_inv s" by (simp add: loop_inv_def)
  then have keys: "\<forall>e \<in> set (open_set s). \<exists>g. g_score s (pos_of e) = Some g"
    by (auto simp: frontier_inv_def)
  have "\<exists>g. g_score s (pos_of (fst (heappop (open_set s)))) = Some g" if "open_set s \<noteq> []"
  proof -
    from that have "fst (heappop (open_set s)) \<in> set (open_set s)"
      by (simp add: heappop_def)
    with keys show ?thesis by blast
  qed
  with fr keys show ?thesis by (simp add: frontier_inv_def)
qed

lemmas run_defs = rows_def cols_def cell_def getitem_def init_def iteration_def heappop_def
  heappush_def relax_def record_goal_def get_neighbors_def directions_def heuristic_def Let_def

lemma corridor_first_pass:
  "\<exists>s. loop_state corridor (1, 1) (1, 2) 1 = Some s \<and> open_set s = [(1, 1, (1, 2))]"
  by (simp add: corridor_def run_defs)

theorem frontier_mirror_invariant_witness:
  "\<exists>s. loop_state corridor (1, 1) (1, 2) 1 = Some s
     \<and> open_set s \<noteq> []
     \<and> open_set_hash s = pos_of ` set (open_set s)
     \<and> distinct (map pos_of (open_set s))
     \<and> (\<exists>g. g_score s (pos_of (fst (heappop (open_set s)))) = Some g)"
proof -
  from corridor_first_pass obtain s where s: "loop_state corridor (1, 1) (1, 2) 1 = Some s"
    and o: "open_set s = [(1, 1, (1, 2))]" by blast
  from o have "open_set s \<noteq> []" by simp
  with frontier_mirror_invariant [OF s] s show ?thesis by blast
qed

text \<open>
  C4: recording the goal cost on the first pop of the goal only gives the same
  result and the same final state as the source for every grid and query. The
  recorded goal cost is still empty whenever the loop condition is tested, so the
  branch taking the minimum with an earlier cost is never run: the pass that pops
  the goal returns \<open>True\<close>.
\<close>

theorem first_pop_recording_equivalent:
  "find_path_first m start goal = find_path m start goal
   \<and> find_path_first_run m start goal = find_path_run m start goal
   \<and> (\<forall>n s. loop_state m start goal n = Some s \<longrightarrow>
         best_goal_cost s = None
         \<and> (open_set s \<noteq> [] \<and> pos_of (fst (heappop (open_set s))) = goal \<longrightarrow>
              (\<exists>s'. iteration m goal s = Return True s')))"
proof -
  have "best_goal_cost s = None
         \<and> (open_set s \<noteq> [] \<and> pos_of (fst (heappop (open_set s))) = goal \<longrightarrow>
              (\<exists>s'. iteration m goal s = Return True s'))"
    if "loop_state m start goal n = Some s" for n s
  proof -
    from that have inv: "loop_inv m start goal s" by (rule loop_state_inv)
    then have "best_goal_cost s = None" by (simp add: loop_inv_def cost_inv_def)
    moreover have "fst (heappop (open_set s)) = least_entry s"
      by (simp add: heappop_def least_entry_def)
    ultimately show ?thesis using goal_pop_returns [OF inv] by simp
  qed
  then show ?thesis
    by (simp add: find_path_first_def find_path_def find_path_first_run_eq)
qed

theorem first_pop_recording_equivalent_witness:
  "\<exists>s. loop_state corridor (1, 1) (1, 2) 1 = Some s
     \<and> open_set s \<noteq> [] \<and> pos_of (fst (heappop (open_set s))) = (1, 2)
     \<and> best_goal_cost s = None \<and> (\<exists>s'. iteration corridor (1, 2) s = Return True s')"
proof -
  from corridor_first_pass obtain s where s: "loop_state corridor (1, 1) (1, 2) 1 = Some s"
    and o: "open_set s = [(1, 1, (1, 2))]" by blast
  from o have h: "open_set s \<noteq> [] \<and> pos_of (fst (heappop (open_set s))) = (1, 2)"
    by (simp add: heappop_def pos_of_def)
  from first_pop_recording_equivalent [of corridor "(1, 1)" "(1, 2)"] s h show ?thesis by blast
qed

section \<open>Reachability\<close>

lemma adjacent_sym: "adjacent p q \<longleftrightarrow> adjacent q p"
  by (simp add: adjacent_def abs_minus_commute)

lemma candidates_adjacent: "q \<in> set (candidates p) \<longleftrightarrow> adjacent p q"
proof -
  obtain r c where p: "p = (r, c)" by (cases p)
  obtain r' c' where q: "q = (r', c')" by (cases q)
  show ?thesis unfolding p q by (auto simp: candidates_def adjacent_def)
qed

lemma walk_nonempty: "walk m ps \<Longrightarrow> ps \<noteq> []"
  by auto

lemma walk_snoc:
  "walk m (ps @ [q]) \<longleftrightarrow> (if ps = [] then open_cell m q
     else walk m ps \<and> adjacent (last ps) q \<and> open_cell m q)"
proof (induction ps rule: walk.induct)
  case (1 m)
  show ?case by simp
next
  case (2 m p)
  show ?case by auto
next
  case (3 m p r ps)
  then show ?case by auto
qed

lemma walk_rev: "walk m (rev ps) = walk m ps"
proof (induction ps rule: walk.induct)
  case (1 m)
  show ?case by simp
next
  case (2 m p)
  show ?case by simp
next
  case (3 m p q ps)
  have "walk m (rev (p # q # ps)) = walk m ((rev (q # ps)) @ [p])" by simp
  also have "\<dots> = (walk m (rev (q # ps)) \<and> adjacent (last (rev (q # ps))) p \<and> open_cell m p)"
    by (subst walk_snoc) simp
  also have "\<dots> = (walk m (q # ps) \<and> adjacent q p \<and> open_cell m p)"
    using 3 by (simp add: last_rev)
  also have "\<dots> = walk m (p # q # ps)"
    using adjacent_sym [of p q] by auto
  finally show ?case .
qed

lemma connected_sym: "connected m a b \<longleftrightarrow> connected m b a"
proof -
  have "connected m b a" if "connected m a b" for a b
  proof -
    from that obtain ps where ps: "walk m ps" "hd ps = a" "last ps = b"
      by (auto simp: connected_def path_between_def)
    then have "ps \<noteq> []" by auto
    with ps have "walk m (rev ps)" "hd (rev ps) = b" "last (rev ps) = a"
      by (simp_all add: walk_rev hd_rev last_rev)
    then show ?thesis by (auto simp: connected_def path_between_def)
  qed
  then show ?thesis by blast
qed

lemma path_extend:
  assumes "path_between m a c ps" "adjacent c n" "open_cell m n"
  shows "path_between m a n (ps @ [n]) \<and> steps (ps @ [n]) = steps ps + 1"
proof -
  from assms(1) have w: "walk m ps" and h: "hd ps = a" and l: "last ps = c"
    by (simp_all add: path_between_def)
  from w have ne: "ps \<noteq> []" by auto
  with w l assms(2,3) have "walk m (ps @ [n])" by (simp add: walk_snoc)
  with ne h show ?thesis by (simp add: path_between_def steps_def)
qed

lemma init_explored:
  assumes "open_cell m start" "start \<noteq> goal"
  shows "explored_inv m start goal (init start)"
proof -
  have "path_between m start start [start] \<and> steps [start] = 0"
    using assms(1) by (simp add: path_between_def steps_def)
  then show ?thesis
    by (auto simp: explored_inv_def init_def split: if_splits)
qed

lemma popped_explored:
  assumes "explored_inv m start goal s"
  shows "explored_except m start goal (pos_of e) (popped e s)"
proof -
  have g: "g_score (popped e s) = g_score s"
    and h: "open_set_hash (popped e s) = open_set_hash s - {pos_of e}"
    by (simp_all add: popped_def)
  from assms show ?thesis
    unfolding explored_inv_def explored_except_def g h by blast
qed

lemma relax_explored:
  assumes ex: "explored_except m start goal c s" and fr: "frontier_inv s"
    and path: "path_between m start c ps" "steps ps = cg"
    and n: "open_cell m n" "adjacent c n"
  shows "explored_except m start goal c (relax goal cg n s)"
proof (cases "improves s cg n")
  case False
  with ex show ?thesis by (simp add: relax_keep)
next
  case imp: True
  let ?s = "relax goal cg n s"
  have g: "g_score ?s = (g_score s)(n \<mapsto> cg + 1)"
    using imp by (cases "n \<in> open_set_hash s") (simp_all add: relax_pending relax_push)
  have nh: "n \<in> open_set_hash ?s"
    using imp by (cases "n \<in> open_set_hash s") (simp_all add: relax_pending relax_push)
  have hs: "open_set_hash s \<subseteq> open_set_hash ?s" by (rule relax_hash)
  from ex have start: "start \<in> dom (g_score s)"
    and paths: "\<And>p g. g_score s p = Some g \<Longrightarrow> \<exists>ps. path_between m start p ps \<and> steps ps = g"
    and closed: "\<And>p. p \<in> dom (g_score s) \<Longrightarrow> p \<notin> open_set_hash s \<Longrightarrow> p \<noteq> c \<Longrightarrow>
           p \<noteq> goal \<and> (\<forall>q. open_cell m q \<and> adjacent p q \<longrightarrow> q \<in> dom (g_score s))"
    unfolding explored_except_def by blast+
  have 1: "start \<in> dom (g_score ?s)" using start g by auto
  have 2: "\<exists>ps. path_between m start p ps \<and> steps ps = g'" if "g_score ?s p = Some g'" for p g'
  proof (cases "p = n")
    case True
    with that g have "g' = cg + 1" by simp
    with path_extend [OF path(1) n(2,1)] path(2) True show ?thesis by auto
  next
    case False
    with that g have "g_score s p = Some g'" by simp
    then show ?thesis by (rule paths)
  qed
  have 3: "p \<noteq> goal \<and> (\<forall>q. open_cell m q \<and> adjacent p q \<longrightarrow> q \<in> dom (g_score ?s))"
    if "p \<in> dom (g_score ?s)" "p \<notin> open_set_hash ?s" "p \<noteq> c" for p
  proof -
    from that(2) nh have "p \<noteq> n" by auto
    with that(1) g have "p \<in> dom (g_score s)" by auto
    moreover from that(2) hs have "p \<notin> open_set_hash s" by auto
    ultimately have "p \<noteq> goal \<and> (\<forall>q. open_cell m q \<and> adjacent p q \<longrightarrow> q \<in> dom (g_score s))"
      using that(3) by (rule closed)
    with g show ?thesis by auto
  qed
  from 1 2 3 show ?thesis unfolding explored_except_def by blast
qed

lemma fold_relax_explored:
  assumes "explored_except m start goal c s" "frontier_inv s"
    and "path_between m start c ps" "steps ps = cg"
    and "\<forall>n \<in> set ns. open_cell m n \<and> adjacent c n"
  shows "explored_except m start goal c (fold (relax goal cg) ns s)
     \<and> set ns \<union> dom (g_score s) \<subseteq> dom (g_score (fold (relax goal cg) ns s))"
  using assms(1,2,5)
proof (induction ns arbitrary: s)
  case Nil
  then show ?case by simp
next
  case (Cons n ns)
  let ?s = "relax goal cg n s"
  from Cons.prems(3) have n: "open_cell m n" "adjacent c n" by simp_all
  have ex: "explored_except m start goal c ?s"
    using Cons.prems(1,2) assms(3,4) n by (rule relax_explored)
  have fr: "frontier_inv ?s" using Cons.prems(2) by (rule relax_frontier_inv)
  from Cons.prems(3) have rest: "\<forall>n \<in> set ns. open_cell m n \<and> adjacent c n" by simp
  from Cons.IH [OF ex fr rest]
  have A: "explored_except m start goal c (fold (relax goal cg) ns ?s)"
    and B: "set ns \<union> dom (g_score ?s) \<subseteq> dom (g_score (fold (relax goal cg) ns ?s))"
    by blast+
  have C: "insert n (dom (g_score s)) \<subseteq> dom (g_score ?s)"
    using relax_dom [of s goal cg n] relax_dom_new [of n goal cg s] by blast
  have "set (n # ns) \<union> dom (g_score s) \<subseteq> dom (g_score (fold (relax goal cg) ns ?s))"
    using B C by (simp only: list.set) blast
  with A show ?case by simp
qed

lemma iteration_continue_explored:
  assumes rect: "rectangular m" and inv: "loop_inv m start goal s"
    and ex: "explored_inv m start goal s" and ne: "open_set s \<noteq> []"
    and it: "iteration m goal s = Continue s'"
  shows "explored_inv m start goal s'"
proof -
  let ?e = "least_entry s" and ?c = "pos_of (least_entry s)"
  from iteration_shape [OF inv ne] obtain cg where e: "?e \<in> set (open_set s)"
    and cg: "g_score s ?c = Some cg"
    and 1: "?c = goal \<longrightarrow> iteration m goal s = Return True ((popped ?e s)\<lparr>best_goal_cost := Some cg\<rparr>)"
    and 2: "?c \<noteq> goal \<longrightarrow> iteration m goal s =
        (case get_neighbors m ?c of
           Inl x \<Rightarrow> Raise x
         | Inr ns \<Rightarrow> Continue (fold (relax goal cg) ns (popped ?e s)))"
    by blast
  from 1 it have cgoal: "?c \<noteq> goal" by auto
  let ?ns = "filter (open_cell m) (candidates ?c)"
  from 2 cgoal it get_neighbors_rect [OF rect, of ?c]
  have s': "s' = fold (relax goal cg) ?ns (popped ?e s)" by simp
  from ex cg obtain ps where ps: "path_between m start ?c ps" "steps ps = cg"
    unfolding explored_inv_def by blast
  have pex: "explored_except m start goal ?c (popped ?e s)"
    using ex by (rule popped_explored)
  have pfr: "frontier_inv (popped ?e s)"
    using popped_loop_inv [OF inv e] by (simp add: loop_inv_def)
  have nbrs: "\<forall>n \<in> set ?ns. open_cell m n \<and> adjacent ?c n"
    by (simp add: candidates_adjacent)
  from fold_relax_explored [OF pex pfr ps nbrs] s'
  have mid: "explored_except m start goal ?c s'"
    and sub: "set ?ns \<union> dom (g_score (popped ?e s)) \<subseteq> dom (g_score s')" by simp_all
  from cg have "?c \<in> dom (g_score (popped ?e s))" by (auto simp: popped_def)
  have cl: "\<forall>q. open_cell m q \<and> adjacent ?c q \<longrightarrow> q \<in> dom (g_score s')"
    using sub by (auto simp: candidates_adjacent)
  from mid cl cgoal show ?thesis
    unfolding explored_inv_def explored_except_def by blast
qed

lemma iteration_return_explored:
  assumes inv: "loop_inv m start goal s" and ex: "explored_inv m start goal s"
    and ne: "open_set s \<noteq> []" and it: "iteration m goal s = Return b s'"
  shows "b \<and> (\<exists>g ps. best_goal_cost s' = Some g \<and> path_between m start goal ps \<and> steps ps = g)"
proof -
  let ?e = "least_entry s" and ?c = "pos_of (least_entry s)"
  from iteration_shape [OF inv ne] obtain cg where cg: "g_score s ?c = Some cg"
    and 1: "?c = goal \<longrightarrow> iteration m goal s = Return True ((popped ?e s)\<lparr>best_goal_cost := Some cg\<rparr>)"
    and 2: "?c \<noteq> goal \<longrightarrow> iteration m goal s =
        (case get_neighbors m ?c of
           Inl x \<Rightarrow> Raise x
         | Inr ns \<Rightarrow> Continue (fold (relax goal cg) ns (popped ?e s)))"
    by blast
  from 2 it have c: "?c = goal" by (auto split: sum.splits)
  with 1 it have b: "b" and s': "s' = (popped ?e s)\<lparr>best_goal_cost := Some cg\<rparr>" by simp_all
  from ex cg c obtain ps where "path_between m start goal ps" "steps ps = cg"
    unfolding explored_inv_def by metis
  with b s' show ?thesis by auto
qed

lemma closed_walk:
  assumes closed: "\<And>p q. p \<in> D \<Longrightarrow> open_cell m q \<Longrightarrow> adjacent p q \<Longrightarrow> q \<in> D"
  shows "walk m ps \<Longrightarrow> hd ps \<in> D \<Longrightarrow> last ps \<in> D"
proof (induction ps)
  case Nil
  then show ?case by simp
next
  case (Cons p ps)
  show ?case
  proof (cases ps)
    case Nil
    with Cons.prems show ?thesis by simp
  next
    case (Cons q qs)
    with Cons.prems have w: "walk m ps" and a: "adjacent p q" and p: "p \<in> D" by simp_all
    from w Cons have "open_cell m q" by (cases qs) simp_all
    with p have "q \<in> D" using a by (rule closed)
    with Cons.IH w Cons show ?thesis by simp
  qed
qed

lemma empty_frontier_unreachable:
  assumes inv: "loop_inv m start goal s" and ex: "explored_inv m start goal s"
    and em: "open_set s = []"
  shows "\<not> connected m start goal"
proof
  assume "connected m start goal"
  then obtain ps where ps: "walk m ps" "hd ps = start" "last ps = goal"
    by (auto simp: connected_def path_between_def)
  from inv em have h: "open_set_hash s = {}"
    by (simp add: loop_inv_def frontier_inv_def)
  let ?D = "dom (g_score s)"
  from ex have start: "start \<in> ?D"
    unfolding explored_inv_def by blast
  have nh: "p \<notin> open_set_hash s" for p using h by simp
  from ex nh have cl: "p \<noteq> goal \<and> (\<forall>q. open_cell m q \<and> adjacent p q \<longrightarrow> q \<in> ?D)"
    if "p \<in> ?D" for p
    using that unfolding explored_inv_def by blast
  have step: "q \<in> ?D" if "p \<in> ?D" "open_cell m q" "adjacent p q" for p q
    using cl [OF that(1)] that(2,3) by blast
  from start ps(2) have "hd ps \<in> ?D" by simp
  with step ps(1) have "last ps \<in> ?D" by (rule closed_walk)
  with ps(3) cl show False by blast
qed

lemma search_connected:
  assumes rect: "rectangular m" and "loop_inv m start goal s" "explored_inv m start goal s"
  shows "\<exists>s'. search m goal s = Some (Inr (connected m start goal, s'))"
  using assms(2,3)
proof (induction rule: loop_induct)
  case (step s)
  show ?case
  proof (cases "open_set s = []")
    case True
    with empty_frontier_unreachable [OF step.hyps step.prems] show ?thesis
      by (simp add: search.simps)
  next
    case False
    show ?thesis
    proof (cases "iteration m goal s")
      case (Continue s')
      from iteration_continue_explored [OF rect step.hyps step.prems False Continue]
      have "\<exists>s''. search m goal s' = Some (Inr (connected m start goal, s''))"
        by (rule step.IH [OF False Continue])
      with False Continue show ?thesis by (simp add: search.simps [of m goal s])
    next
      case (Raise e)
      with iteration_rect [OF rect step.hyps False, of e] show ?thesis by simp
    next
      case (Return b s')
      from iteration_return_explored [OF step.hyps step.prems False Return]
      have "b" "connected m start goal" by (auto simp: connected_def)
      with False Return show ?thesis by (simp add: search.simps [of m goal s])
    qed
  qed
qed

lemma find_path_connected:
  assumes "rectangular m" "open_cell m start" "open_cell m goal"
  shows "find_path m start goal = Some (Inr (connected m start goal))"
proof -
  from assms have v: "in_bounds m start" "in_bounds m goal" "\<not> occupied m start" "\<not> occupied m goal"
    by (simp_all add: open_cell_def occupied_def)
  show ?thesis
  proof (cases "start = goal")
    case True
    from assms(2) have "path_between m start start [start]" by (simp add: path_between_def)
    then have "connected m start start" unfolding connected_def by blast
    moreover have "find_path_run m start goal = Some (Inr (True, None))"
      unfolding find_path_run_valid [OF assms(1) v] using True by simp
    ultimately show ?thesis using True
      by (simp add: find_path_def)
  next
    case False
    from search_connected [OF assms(1) init_loop_inv init_explored [OF assms(2) False]]
    obtain s' where "search m goal (init start) = Some (Inr (connected m start goal, s'))"
      by blast
    with False show ?thesis
      by (simp add: find_path_def find_path_run_valid [OF assms(1) v])
  qed
qed


section \<open>The answer of \<^verbatim>\<open>find_path\<close>\<close>

lemma corridor_rectangular: "rectangular corridor"
  by (simp add: rectangular_def corridor_def cols_def rows_def)

lemma corridor_binary: "binary corridor"
  by (simp add: binary_def corridor_def)

lemma corridor_cells:
  "in_bounds corridor (1, 1)" "in_bounds corridor (1, 2)"
  "\<not> occupied corridor (1, 1)" "\<not> occupied corridor (1, 2)"
  by (simp_all add: in_bounds_def occupied_def at_def corridor_def cols_def rows_def)

lemma unoccupied_open:
  assumes "rectangular m" "binary m" "in_bounds m p" "\<not> occupied m p"
  shows "open_cell m p"
  using binary_at [OF assms(2,1,3)] assms(3,4) by (auto simp: open_cell_def occupied_def)

text \<open>
  C1: on a rectangular binary grid, for in-bounds unoccupied \<open>start\<close> and \<open>end\<close>,
  \<^verbatim>\<open>find_path\<close> returns \<open>True\<close> exactly when some sequence of open cells, each one step
  up, down, left or right of the one before, leads from \<open>start\<close> to \<open>end\<close>, and \<open>False\<close>
  otherwise; for \<open>start = end\<close> the answer is \<open>True\<close>, by the path of no steps.
\<close>

theorem find_path_iff_path:
  assumes "rectangular m" "binary m" "in_bounds m start" "in_bounds m goal"
    "\<not> occupied m start" "\<not> occupied m goal"
  shows "(find_path m start goal = Some (Inr True) \<longleftrightarrow> (\<exists>ps. path_between m start goal ps))
     \<and> (find_path m start goal = Some (Inr True) \<or> find_path m start goal = Some (Inr False))
     \<and> (start = goal \<longrightarrow> find_path m start goal = Some (Inr True)
           \<and> path_between m start goal [start] \<and> steps [start] = 0)"
proof -
  have s: "open_cell m start" using assms(1,2,3,5) by (rule unoccupied_open)
  have g: "open_cell m goal" using assms(1,2,4,6) by (rule unoccupied_open)
  have fp: "find_path m start goal = Some (Inr (connected m start goal))"
    using assms(1) s g by (rule find_path_connected)
  have self: "path_between m start start [start] \<and> steps [start] = 0"
    using s by (simp add: path_between_def steps_def)
  then have "connected m start start" unfolding connected_def by blast
  with fp self show ?thesis by (auto simp: connected_def)
qed

theorem find_path_iff_path_witness:
  "rectangular corridor \<and> binary corridor \<and> in_bounds corridor (1, 1) \<and> in_bounds corridor (1, 2)
   \<and> \<not> occupied corridor (1, 1) \<and> \<not> occupied corridor (1, 2)
   \<and> path_between corridor (1, 1) (1, 2) [(1, 1), (1, 2)]
   \<and> find_path corridor (1, 1) (1, 2) = Some (Inr True)"
proof -
  have p: "path_between corridor (1, 1) (1, 2) [(1, 1), (1, 2)]"
    by (simp add: path_between_def open_cell_def adjacent_def in_bounds_def at_def corridor_def
        cols_def rows_def)
  from find_path_iff_path [OF corridor_rectangular corridor_binary corridor_cells]
  have "find_path corridor (1, 1) (1, 2) = Some (Inr True) \<longleftrightarrow>
      (\<exists>ps. path_between corridor (1, 1) (1, 2) ps)" by blast
  with p have "find_path corridor (1, 1) (1, 2) = Some (Inr True)" by blast
  with p corridor_rectangular corridor_binary corridor_cells show ?thesis by blast
qed

text \<open>
  C7: on a rectangular binary grid the answer does not depend on the direction of the
  query: \<^verbatim>\<open>find_path(a, b)\<close> and \<^verbatim>\<open>find_path(b, a)\<close> are equal for all coordinates.
\<close>

theorem find_path_symmetric:
  assumes "rectangular m" "binary m"
  shows "find_path m a b = find_path m b a"
proof (cases "in_bounds m a \<and> in_bounds m b \<and> \<not> occupied m a \<and> \<not> occupied m b")
  case True
  then have a: "open_cell m a" and b: "open_cell m b"
    using assms by (simp_all add: unoccupied_open)
  have "find_path m a b = Some (Inr (connected m a b))"
    using assms(1) a b by (rule find_path_connected)
  moreover have "find_path m b a = Some (Inr (connected m b a))"
    using assms(1) b a by (rule find_path_connected)
  ultimately show ?thesis using connected_sym [of m a b] by simp
next
  case False
  then have 1: "\<not> in_bounds m a \<or> \<not> in_bounds m b \<or> occupied m a \<or> occupied m b"
    and 2: "\<not> in_bounds m b \<or> \<not> in_bounds m a \<or> occupied m b \<or> occupied m a"
    by blast+
  from find_path_run_invalid [OF assms(1) 1] find_path_run_invalid [OF assms(1) 2]
  show ?thesis by (simp add: find_path_def)
qed

theorem find_path_symmetric_witness:
  "rectangular corridor \<and> binary corridor
   \<and> find_path corridor (1, 1) (1, 2) = find_path corridor (1, 2) (1, 1)"
  using find_path_symmetric [OF corridor_rectangular corridor_binary, of "(1, 1)" "(1, 2)"]
    corridor_rectangular corridor_binary by simp

section \<open>The recorded goal cost and the frontier entries\<close>

lemma detour_run:
  "(case find_path_run detour (2, 0) (0, 7) of
      Some (Inr (b, Some s)) \<Rightarrow> b \<and> best_goal_cost s = Some 13
    | _ \<Rightarrow> False)"
  by code_simp

lemma detour_path_ok: "path_between detour (2, 0) (0, 7) detour_path \<and> steps detour_path = 11"
  by code_simp

lemma detour_valid:
  "rectangular detour \<and> binary detour \<and> in_bounds detour (2, 0) \<and> in_bounds detour (0, 7)
   \<and> \<not> occupied detour (2, 0) \<and> \<not> occupied detour (0, 7)"
  by code_simp

lemma search_cost_path:
  assumes rect: "rectangular m" and "loop_inv m start goal s" "explored_inv m start goal s"
    and "search m goal s = Some (Inr (True, s'))"
  shows "\<exists>g ps. best_goal_cost s' = Some g \<and> path_between m start goal ps \<and> steps ps = g"
  using assms(2,3,4)
proof (induction rule: loop_induct)
  case (step s)
  from step.prems(2) have ne: "open_set s \<noteq> []"
    by (auto simp: search.simps [of m goal s] split: if_splits)
  show ?case
  proof (cases "iteration m goal s")
    case (Continue s1)
    from step.prems(2) ne Continue have "search m goal s1 = Some (Inr (True, s'))"
      by (simp add: search.simps [of m goal s])
    with iteration_continue_explored [OF rect step.hyps step.prems(1) ne Continue]
    show ?thesis by (rule step.IH [OF ne Continue])
  next
    case (Raise e)
    with step.prems(2) ne show ?thesis by (simp add: search.simps [of m goal s])
  next
    case (Return b s1)
    with step.prems(2) ne have "s1 = s'" by (simp add: search.simps [of m goal s])
    with iteration_return_explored [OF step.hyps step.prems(1) ne Return] show ?thesis by blast
  qed
qed

text \<open>
  C2 fails on the code. On the 4 x 8 grid \<open>detour\<close>, with start (2,0) and end (0,7),
  \<^verbatim>\<open>find_path\<close> returns \<open>True\<close> through the termination check with \<open>best_goal_cost = 13\<close>,
  while the path \<open>detour_path\<close> from start to end has 11 steps.
\<close>

theorem goal_cost_not_shortest:
  "\<exists>s. find_path_run detour (2, 0) (0, 7) = Some (Inr (True, Some s))
     \<and> best_goal_cost s = Some 13
     \<and> path_between detour (2, 0) (0, 7) detour_path \<and> steps detour_path = 11"
  using detour_run detour_path_ok
  by (auto split: option.splits sum.splits)

lemma pocket_run:
  "(case loop_state pocket (1, 4) (2, 0) 6 of
      None \<Rightarrow> False
    | Some s \<Rightarrow>
        fst (heappop (open_set s)) = (7, 6, (0, 3))
        \<and> g_score s (0, 3) = Some 2 \<and> g_score s (0, 2) = Some 5
        \<and> (0, 2) \<in> open_set_hash s
        \<and> get_neighbors pocket (0, 3) = Inr [(0, 2), (0, 4)]
        \<and> (case iteration pocket (2, 0) s of
              Continue s' \<Rightarrow>
                g_score s' (0, 2) = Some 3 \<and> open_set s' = snd (heappop (open_set s))
                \<and> open_set s' = [(9, 7, (0, 2)), (7, 8, (1, 1))]
            | _ \<Rightarrow> False))"
  by code_simp

text \<open>
  C3 fails on the code. On the 3 x 5 grid \<open>pocket\<close>, with start (1,4) and end (2,0),
  the seventh pass pops (0,3) with cost 2; its neighbour (0,2) has the recorded cost
  5 and is in the frontier. The pass lowers the recorded cost of (0,2) to 3 and pushes
  nothing: the frontier after the pass is the frontier after the pop, and its entry for
  (0,2) still carries the priority 9 computed from the cost 5.
\<close>

theorem improved_pending_not_pushed:
  "\<exists>s s'. loop_state pocket (1, 4) (2, 0) 6 = Some s
     \<and> fst (heappop (open_set s)) = (7, 6, (0, 3))
     \<and> g_score s (0, 3) = Some 2 \<and> g_score s (0, 2) = Some 5
     \<and> (0, 2) \<in> open_set_hash s
     \<and> get_neighbors pocket (0, 3) = Inr [(0, 2), (0, 4)]
     \<and> iteration pocket (2, 0) s = Continue s'
     \<and> g_score s' (0, 2) = Some 3
     \<and> open_set s' = snd (heappop (open_set s))
     \<and> open_set s' = [(9, 7, (0, 2)), (7, 8, (1, 1))]"
  using pocket_run
  by (auto split: option.splits outcome.splits)

end
